theory Spec2Isabelle
  imports Complex_Main
begin

section \<open>Label generator: font fitting, label composition, batch driver\<close>

text \<open>
  The development embeds the three helper functions of \<^verbatim>\<open>app.py\<close>:
  \<^verbatim>\<open>find_max_font_size_for_multiline\<close>, \<^verbatim>\<open>draw_label\<close> and \<^verbatim>\<open>create_pdf\<close>.

  Conventions of the embedding.
  \<^item> A Python \<^verbatim>\<open>str\<close> is a \<^typ>\<open>string\<close>; a \<^typ>\<open>char\<close> stands for the code point of the
    same number, so the strings covered are those over code points below 256.
  \<^item> Font sizes and line counts are Python integers: \<^typ>\<open>int\<close>.
  \<^item> Canvas dimensions, rendered widths and coordinates are Python floats; they are
    idealised as \<^typ>\<open>real\<close> (no rounding, no infinities, no not-a-number).
  \<^item> \<^verbatim>\<open>pdfmetrics.stringWidth\<close> belongs to the rendering library. It is a parameter
    \<open>sw\<close> of every function that measures text, applied as \<open>sw line font_name font_size\<close>.
  \<^item> A raised exception is a value \<open>Inl e\<close>; a loop that does not return is \<open>None\<close>.
\<close>

subsection \<open>Exceptions\<close>

datatype error = ValueError

subsection \<open>String operations of the Python runtime\<close>

text \<open>
  \<^verbatim>\<open>str.split()\<close> and \<^verbatim>\<open>str.strip()\<close> without arguments use the whitespace test of
  \<^verbatim>\<open>str.isspace\<close>. Below code point 256 the whitespace characters are 9 to 13, 28 to 32,
  133 and 160.
\<close>

definition isspace :: "char \<Rightarrow> bool" where
  "isspace c = (let n = (of_char c :: nat) in
     (9 \<le> n \<and> n \<le> 13) \<or> (28 \<le> n \<and> n \<le> 32) \<or> n = 133 \<or> n = 160)"

text \<open>\<^verbatim>\<open>text.strip()\<close>: leading and trailing whitespace removed.\<close>

definition strip :: "string \<Rightarrow> string" where
  "strip s = rev (dropWhile isspace (rev (dropWhile isspace s)))"

text \<open>
  \<^verbatim>\<open>text.split()\<close>: skip whitespace; stop at the end of the string; otherwise the
  characters up to the next whitespace form a word, and the scan goes on behind it.
\<close>

function split :: "string \<Rightarrow> string list" where
  "split s =
     (let r = dropWhile isspace s in
      if r = [] then []
      else takeWhile (\<lambda>c. \<not> isspace c) r # split (dropWhile (\<lambda>c. \<not> isspace c) r))"
  by pat_completeness auto
termination
proof (relation "measure length")
  show "wf (measure length)" by simp
next
  fix s r :: string
  assume r: "r = dropWhile isspace s" and ne: "r \<noteq> []"
  have h: "\<not> isspace (hd r)"
    using r ne hd_dropWhile by metis
  have "length (dropWhile (\<lambda>c. \<not> isspace c) r) < length r"
    using ne h by (cases r) (auto intro: le_imp_less_Suc length_dropWhile_le)
  also have "length r \<le> length s"
    using r by (simp add: length_dropWhile_le)
  finally show "(dropWhile (\<lambda>c. \<not> isspace c) r, s) \<in> measure length"
    by simp
qed

declare split.simps [simp del]

text \<open>
  \<^verbatim>\<open>text.lower()\<close>. Below code point 256 the upper-case letters are 65 to 90, 192 to 214
  and 216 to 222; each has its lower-case form 32 places further on.
\<close>

definition lower_char :: "char \<Rightarrow> char" where
  "lower_char c = (let n = (of_char c :: nat) in
     if (65 \<le> n \<and> n \<le> 90) \<or> (192 \<le> n \<and> n \<le> 214) \<or> (216 \<le> n \<and> n \<le> 222)
     then char_of (n + 32) else c)"

definition lower :: "string \<Rightarrow> string" where
  "lower s = map lower_char s"

text \<open>
  The builtin \<^verbatim>\<open>max\<close> over an iterable: \<^verbatim>\<open>ValueError\<close> on an empty one, otherwise the
  running maximum from the first element on.
\<close>

fun max_of :: "real list \<Rightarrow> error + real" where
  "max_of [] = Inl ValueError"
| "max_of (x # xs) = Inr (fold max xs x)"

subsection \<open>The font-fit solver\<close>

type_synonym metrics = "string \<Rightarrow> string \<Rightarrow> int \<Rightarrow> real"

text \<open>
  The two quantities of the loop body:
  \<^verbatim>\<open>max(pdfmetrics.stringWidth(line, font_name, font_size) for line in lines)\<close> and
  \<^verbatim>\<open>len(lines) * font_size + (len(lines) - 1) * 2\<close>.
\<close>

definition max_line_width :: "metrics \<Rightarrow> string list \<Rightarrow> string \<Rightarrow> int \<Rightarrow> error + real" where
  "max_line_width sw lines font_name font_size =
     max_of (map (\<lambda>line. sw line font_name font_size) lines)"

definition total_height :: "string list \<Rightarrow> int \<Rightarrow> int" where
  "total_height lines font_size =
     int (length lines) * font_size + (int (length lines) - 1) * 2"

text \<open>
  A size fits when the test of the loop body does not fire: the widest line is within
  \<open>max_width - 4\<close> and the block is within \<open>max_height - 4\<close>.
\<close>

definition fits :: "metrics \<Rightarrow> string list \<Rightarrow> real \<Rightarrow> real \<Rightarrow> string \<Rightarrow> int \<Rightarrow> bool" where
  "fits sw lines max_width max_height font_name font_size =
     (case max_line_width sw lines font_name font_size of
        Inl e \<Rightarrow> False
      | Inr w \<Rightarrow> \<not> (w > max_width - 4 \<or> real_of_int (total_height lines font_size) > max_height - 4))"

text \<open>
  The \<^verbatim>\<open>while True\<close> loop, with the loop variable \<open>font_size\<close> as an argument. The loop has
  no bound of its own, so it is a partial function: \<open>None\<close> means that it never returns.
\<close>

partial_function (option) find_max_font_size_loop ::
  "metrics \<Rightarrow> string list \<Rightarrow> real \<Rightarrow> real \<Rightarrow> string \<Rightarrow> int \<Rightarrow> (error + int) option"
where
  "find_max_font_size_loop sw lines max_width max_height font_name font_size =
     (case max_line_width sw lines font_name font_size of
        Inl e \<Rightarrow> Some (Inl e)
      | Inr w \<Rightarrow>
          if w > max_width - 4 \<or> real_of_int (total_height lines font_size) > max_height - 4
          then Some (Inr (max (font_size - 1) 1))
          else find_max_font_size_loop sw lines max_width max_height font_name (font_size + 1))"

definition find_max_font_size_for_multiline ::
  "metrics \<Rightarrow> string list \<Rightarrow> real \<Rightarrow> real \<Rightarrow> string \<Rightarrow> (error + int) option"
where
  "find_max_font_size_for_multiline sw lines max_width max_height font_name =
     find_max_font_size_loop sw lines max_width max_height font_name 1"

subsection \<open>The canvas\<close>

text \<open>
  The canvas of the rendering library is represented by what it has been asked to do: the
  operations on the page being built (\<open>code\<close>) and the pages already finished (\<open>pages\<close>).
  \<^verbatim>\<open>showPage\<close> finishes the current page, whatever is on it; \<^verbatim>\<open>save\<close> finishes a page
  first when operations are pending.
\<close>

datatype op = SetFont string int | DrawString real real string

record canvas =
  pagesize :: "real \<times> real"
  code :: "op list"
  pages :: "op list list"

definition Canvas :: "real \<times> real \<Rightarrow> canvas" where
  "Canvas ps = \<lparr>pagesize = ps, code = [], pages = []\<rparr>"

definition setFont :: "canvas \<Rightarrow> string \<Rightarrow> int \<Rightarrow> canvas" where
  "setFont c font_name font_size = c\<lparr>code := code c @ [SetFont font_name font_size]\<rparr>"

definition drawString :: "canvas \<Rightarrow> real \<Rightarrow> real \<Rightarrow> string \<Rightarrow> canvas" where
  "drawString c x y text = c\<lparr>code := code c @ [DrawString x y text]\<rparr>"

definition showPage :: "canvas \<Rightarrow> canvas" where
  "showPage c = c\<lparr>pages := pages c @ [code c], code := []\<rparr>"

definition save :: "canvas \<Rightarrow> canvas" where
  "save c = (if code c \<noteq> [] then showPage c else c)"

subsection \<open>The label composer\<close>

definition FONT_ADJUSTMENT :: int where
  "FONT_ADJUSTMENT = 2"

text \<open>
  The body of \<^verbatim>\<open>for i, line in enumerate(lines)\<close>, and the loop as a left fold over the
  enumerated lines.
\<close>

definition draw_line ::
  "metrics \<Rightarrow> string list \<Rightarrow> string \<Rightarrow> int \<Rightarrow> real \<Rightarrow> real \<Rightarrow> canvas \<Rightarrow> nat \<times> string \<Rightarrow> canvas"
where
  "draw_line sw lines font_name font_size width start_y c il =
     (case il of (i, line) \<Rightarrow>
        let line_width = sw line font_name font_size;
            x = (width - line_width) / 2;
            y = start_y + real_of_int ((int (length lines) - int i - 1) * (font_size + 2))
        in drawString c x y line)"

definition draw_label ::
  "metrics \<Rightarrow> canvas \<Rightarrow> string \<Rightarrow> string \<Rightarrow> real \<Rightarrow> real \<Rightarrow> int \<Rightarrow> (error + canvas) option"
where
  "draw_label sw c text font_name width height font_override =
     (let lines = split text in
      case find_max_font_size_for_multiline sw lines width height font_name of
        None \<Rightarrow> None
      | Some (Inl e) \<Rightarrow> Some (Inl e)
      | Some (Inr raw_font_size) \<Rightarrow>
          let font_size = max (raw_font_size - FONT_ADJUSTMENT + font_override) 1;
              c1 = setFont c font_name font_size;
              total_height = total_height lines font_size;
              start_y = (height - real_of_int total_height) / 2
          in Some (Inr (foldl (draw_line sw lines font_name font_size width start_y) c1
                          (enumerate 0 lines))))"

subsection \<open>The batch driver\<close>

text \<open>
  The \<^verbatim>\<open>for value in data_list\<close> loop, with the canvas as the state. The caller passes a
  list of strings, on which \<^verbatim>\<open>str(value)\<close> is the identity. An exception of
  \<^verbatim>\<open>draw_label\<close> leaves the loop.
\<close>

fun create_pdf_loop ::
  "metrics \<Rightarrow> canvas \<Rightarrow> string list \<Rightarrow> string \<Rightarrow> real \<Rightarrow> real \<Rightarrow> int \<Rightarrow> (error + canvas) option"
where
  "create_pdf_loop sw c [] font_name width height font_override = Some (Inr c)"
| "create_pdf_loop sw c (v # data_list) font_name width height font_override =
     (let text = strip v in
      if text = [] \<or> lower text = ''nan''
      then create_pdf_loop sw c data_list font_name width height font_override
      else case draw_label sw c text font_name width height font_override of
             None \<Rightarrow> None
           | Some (Inl e) \<Rightarrow> Some (Inl e)
           | Some (Inr c') \<Rightarrow>
               create_pdf_loop sw (showPage c') data_list font_name width height font_override)"

definition create_pdf ::
  "metrics \<Rightarrow> string list \<Rightarrow> string \<Rightarrow> real \<Rightarrow> real \<Rightarrow> int \<Rightarrow> (error + canvas) option"
where
  "create_pdf sw data_list font_name width height font_override =
     (case create_pdf_loop sw (Canvas (width, height)) data_list font_name width height
             font_override of
        None \<Rightarrow> None
      | Some (Inl e) \<Rightarrow> Some (Inl e)
      | Some (Inr c) \<Rightarrow> Some (Inr (save c)))"

subsection \<open>Observations on the output\<close>

text \<open>
  The page that \<^verbatim>\<open>draw_label\<close> builds for a text on an empty canvas of the given size
  (empty when \<^verbatim>\<open>draw_label\<close> raises).
\<close>

definition label_page :: "metrics \<Rightarrow> string \<Rightarrow> string \<Rightarrow> real \<Rightarrow> real \<Rightarrow> int \<Rightarrow> op list" where
  "label_page sw text font_name width height font_override =
     (case draw_label sw (Canvas (width, height)) text font_name width height font_override of
        Some (Inr c') \<Rightarrow> code c'
      | _ \<Rightarrow> [])"

text \<open>The strings drawn by a list of operations, in drawing order.\<close>

fun drawn_text :: "op \<Rightarrow> string list" where
  "drawn_text (SetFont font_name font_size) = []"
| "drawn_text (DrawString x y line) = [line]"

definition drawn_lines :: "op list \<Rightarrow> string list" where
  "drawn_lines ops = concat (map drawn_text ops)"

text \<open>
  The \<^verbatim>\<open>drawString\<close> calls of one label in closed form: line \<open>i\<close> of \<open>L\<close> at
  \<open>x = (w - sw line f fs) / 2\<close> and \<open>y = start_y + (len(L) - i - 1) * (fs + 2)\<close>, with
  \<open>start_y = (h - total_height) / 2\<close>. Lemma \<open>draw_label_explicit\<close> shows that
  \<^verbatim>\<open>draw_label\<close> issues exactly these.
\<close>

definition line_ops :: "metrics \<Rightarrow> string list \<Rightarrow> string \<Rightarrow> int \<Rightarrow> real \<Rightarrow> real \<Rightarrow> op list" where
  "line_ops sw L f fs w h =
     map (\<lambda>i. DrawString ((w - sw (L ! i) f fs) / 2)
            ((h - real_of_int (int (length L) * fs + (int (length L) - 1) * 2)) / 2
               + real_of_int ((int (length L) - int i - 1) * (fs + 2)))
            (L ! i)) [0..<length L]"

text \<open>
  A test font for concrete runs: every character is as wide as the font size, whatever
  the font name.
\<close>

definition test_font :: metrics where
  "test_font line font_name font_size = real (length line) * real_of_int font_size"

section \<open>Properties of the solver\<close>

subsection \<open>The maximum and the fit test\<close>

lemma max_of_Max:
  assumes "xs \<noteq> []"
  shows "max_of xs = Inr (Max (set xs))"
proof (cases xs)
  case Nil
  then show ?thesis using assms by simp
next
  case (Cons a list)
  then show ?thesis using Max.set_eq_fold [of a list] by simp
qed

lemma max_line_width_Max:
  "lines \<noteq> [] \<Longrightarrow>
   max_line_width sw lines f s = Inr (Max ((\<lambda>line. sw line f s) ` set lines))"
  by (simp add: max_line_width_def max_of_Max)


lemma Max_le_image:
  assumes "lines \<noteq> []"
  shows "Max ((\<lambda>line. g line) ` set lines) \<le> (b::real) \<longleftrightarrow> (\<forall>line\<in>set lines. g line \<le> b)"
  using assms by (simp add: Max_le_iff)

lemma fits_iff:
  assumes "lines \<noteq> []"
  shows "fits sw lines mw mh f s \<longleftrightarrow>
    (\<forall>line\<in>set lines. sw line f s \<le> mw - 4) \<and>
    real_of_int (int (length lines) * s + (int (length lines) - 1) * 2) \<le> mh - 4"
  using assms
  by (simp add: fits_def max_line_width_Max total_height_def not_less Max_le_iff)

lemma loop_step:
  assumes "lines \<noteq> []" "fits sw lines mw mh f s"
  shows "find_max_font_size_loop sw lines mw mh f s = find_max_font_size_loop sw lines mw mh f (s + 1)"
  using assms
  by (subst find_max_font_size_loop.simps) (auto simp: fits_def max_line_width_Max)

lemma loop_stop:
  assumes "lines \<noteq> []" "\<not> fits sw lines mw mh f s"
  shows "find_max_font_size_loop sw lines mw mh f s = Some (Inr (max (s - 1) 1))"
  using assms
  by (subst find_max_font_size_loop.simps) (auto simp: fits_def max_line_width_Max)


lemma loop_first_overflow:
  assumes "lines \<noteq> []"
    and "\<not> fits sw lines mw mh f (s + int k)"
    and "\<forall>j<k. fits sw lines mw mh f (s + int j)"
  shows "find_max_font_size_loop sw lines mw mh f s = Some (Inr (max (s + int k - 1) 1))"
  using assms(2,3)
proof (induction k arbitrary: s)
  case 0
  then show ?case using loop_stop [OF assms(1)] by simp
next
  case (Suc k)
  have f0: "fits sw lines mw mh f s" using Suc.prems(2) by force
  have eq: "s + int (Suc j) = (s + 1) + int j" for j by simp
  have a: "\<not> fits sw lines mw mh f ((s + 1) + int k)"
    using Suc.prems(1) unfolding eq .
  have b: "\<forall>j<k. fits sw lines mw mh f ((s + 1) + int j)"
  proof (intro allI impI)
    fix j assume "j < k"
    then have "fits sw lines mw mh f (s + int (Suc j))" using Suc.prems(2) by blast
    then show "fits sw lines mw mh f ((s + 1) + int j)" unfolding eq .
  qed
  have "find_max_font_size_loop sw lines mw mh f s = find_max_font_size_loop sw lines mw mh f (s + 1)"
    by (rule loop_step [OF assms(1) f0])
  also have "\<dots> = Some (Inr (max ((s + 1) + int k - 1) 1))"
    by (rule Suc.IH [OF a b])
  finally show ?case unfolding eq .
qed

lemma total_height_add:
  "total_height lines (s + int k) = total_height lines s + int (length lines) * int k"
  by (simp add: total_height_def algebra_simps)

lemma height_overflows:
  assumes "lines \<noteq> []"
  shows "\<exists>k. real_of_int (total_height lines (s + int k)) > mh - 4"
proof -
  define k where "k = nat (\<lfloor>mh - 4 - real_of_int (total_height lines s)\<rfloor> + 1)"
  have n: "1 \<le> int (length lines)" using assms by (cases lines) simp_all
  have "mh - 4 - real_of_int (total_height lines s) < real_of_int (\<lfloor>mh - 4 - real_of_int (total_height lines s)\<rfloor> + 1)"
    by linarith
  also have "\<dots> \<le> real_of_int (int k)" unfolding k_def by simp
  also have "int k \<le> int (length lines) * int k"
    using n by (simp add: mult_le_cancel_right1)
  finally have "mh - 4 - real_of_int (total_height lines s) < real_of_int (int (length lines) * int k)"
    by simp
  then have "real_of_int (total_height lines (s + int k)) > mh - 4"
    by (simp add: total_height_add)
  then show ?thesis ..
qed

lemma some_overflow:
  assumes "lines \<noteq> []"
  shows "\<exists>k. \<not> fits sw lines mw mh f (s + int k)"
proof -
  obtain k where "real_of_int (total_height lines (s + int k)) > mh - 4"
    using height_overflows [OF assms] by blast
  then have "\<not> fits sw lines mw mh f (s + int k)"
    by (simp add: fits_def max_line_width_Max [OF assms])
  then show ?thesis ..
qed

lemma loop_result:
  assumes "lines \<noteq> []"
  shows "\<exists>k. \<not> fits sw lines mw mh f (s + int k) \<and> (\<forall>j<k. fits sw lines mw mh f (s + int j)) \<and>
     find_max_font_size_loop sw lines mw mh f s = Some (Inr (max (s + int k - 1) 1))"
proof -
  define P where "P k = (\<not> fits sw lines mw mh f (s + int k))" for k
  have ex: "\<exists>k. P k" unfolding P_def by (rule some_overflow [OF assms])
  define k where "k = (LEAST k. P k)"
  have pk: "P k" unfolding k_def using ex by (metis LeastI)
  have below: "\<forall>j<k. \<not> P j" unfolding k_def using not_less_Least by blast
  have a: "\<not> fits sw lines mw mh f (s + int k)" using pk by (simp add: P_def)
  have b: "\<forall>j<k. fits sw lines mw mh f (s + int j)" using below by (simp add: P_def)
  show ?thesis using a b loop_first_overflow [OF assms a b] by blast
qed

lemma find_max_result:
  assumes "lines \<noteq> []"
  shows "\<exists>t. 1 \<le> t \<and> \<not> fits sw lines mw mh f t \<and> (\<forall>u. 1 \<le> u \<and> u < t \<longrightarrow> fits sw lines mw mh f u) \<and>
     find_max_font_size_for_multiline sw lines mw mh f = Some (Inr (max (t - 1) 1))"
proof -
  obtain k where k: "\<not> fits sw lines mw mh f (1 + int k)"
      "\<forall>j<k. fits sw lines mw mh f (1 + int j)"
      "find_max_font_size_loop sw lines mw mh f 1 = Some (Inr (max (1 + int k - 1) 1))"
    using loop_result [OF assms, of sw mw mh f 1] by blast
  have below: "\<forall>u. 1 \<le> u \<and> u < 1 + int k \<longrightarrow> fits sw lines mw mh f u"
  proof (intro allI impI)
    fix u :: int assume u: "1 \<le> u \<and> u < 1 + int k"
    then have "nat (u - 1) < k" by linarith
    then have "fits sw lines mw mh f (1 + int (nat (u - 1)))" using k(2) by blast
    then show "fits sw lines mw mh f u" using u by simp
  qed
  show ?thesis
    using k(1) k(3) below
    by (intro exI [of _ "1 + int k"]) (simp add: find_max_font_size_for_multiline_def)
qed

lemma max_line_width_mono:
  assumes "lines \<noteq> []"
    and "\<forall>line\<in>set lines. sw line f s1 \<le> sw line f s2"
  shows "Max ((\<lambda>line. sw line f s1) ` set lines) \<le> Max ((\<lambda>line. sw line f s2) ` set lines)"
proof -
  have fin: "finite ((\<lambda>line. sw line f s2) ` set lines)" by simp
  have "\<forall>line\<in>set lines. sw line f s1 \<le> Max ((\<lambda>line. sw line f s2) ` set lines)"
  proof
    fix line assume l: "line \<in> set lines"
    have top: "sw line f s2 \<le> Max ((\<lambda>line. sw line f s2) ` set lines)"
      using l by (intro Max_ge fin) simp
    have "sw line f s1 \<le> sw line f s2"
      using assms(2) l by blast
    then show "sw line f s1 \<le> Max ((\<lambda>line. sw line f s2) ` set lines)"
      using top by (rule order_trans)
  qed
  then show ?thesis using assms(1) by (simp add: Max_le_iff)
qed

lemma total_height_strict_mono:
  assumes "lines \<noteq> []" "s1 < s2"
  shows "total_height lines s1 < total_height lines s2"
proof -
  have "0 < int (length lines)" using assms(1) by simp
  then have "int (length lines) * s1 < int (length lines) * s2"
    using assms(2) by simp
  then show ?thesis by (simp add: total_height_def)
qed

lemma fits_antimono:
  assumes "lines \<noteq> []"
    and "\<forall>line\<in>set lines. sw line f s1 \<le> sw line f s2"
    and "s1 \<le> s2"
    and "fits sw lines mw mh f s2"
  shows "fits sw lines mw mh f s1"
proof -
  have w: "\<forall>line\<in>set lines. sw line f s1 \<le> mw - 4"
    using assms(2,4) by (force simp: fits_iff [OF assms(1)])
  have "total_height lines s1 \<le> total_height lines s2"
    using total_height_strict_mono [OF assms(1), of s1 s2] assms(3) by (cases "s1 = s2") simp_all
  then have "real_of_int (total_height lines s1) \<le> real_of_int (total_height lines s2)"
    by simp
  also have "\<dots> \<le> mh - 4"
    using assms(4) by (simp add: fits_iff [OF assms(1)] total_height_def)
  finally show ?thesis using w by (simp add: fits_iff [OF assms(1)] total_height_def)
qed

subsection \<open>Monotonicity in the font size\<close>

text \<open>
  Claim C9. For font sizes \<open>s1 < s2\<close> and a non-empty list of lines, when the rendered
  width of every line is non-decreasing in the size, the maximum line width at \<open>s2\<close> is
  at least the one at \<open>s1\<close> (both maxima exist), and the block height
  \<open>len(lines) * s + (len(lines) - 1) * 2\<close> at \<open>s2\<close> is strictly greater than at \<open>s1\<close>.
\<close>
theorem width_height_monotone:
  assumes "lines \<noteq> []"
    and "s1 < s2"
    and "\<forall>line\<in>set lines. \<forall>a b. a \<le> b \<longrightarrow> sw line f a \<le> sw line f b"
  shows "\<exists>m1 m2. max_line_width sw lines f s1 = Inr m1 \<and> max_line_width sw lines f s2 = Inr m2 \<and>
           m1 \<le> m2 \<and> total_height lines s1 < total_height lines s2"
proof -
  have "\<forall>line\<in>set lines. sw line f s1 \<le> sw line f s2"
    using assms(2,3) by simp
  then have "Max ((\<lambda>line. sw line f s1) ` set lines) \<le> Max ((\<lambda>line. sw line f s2) ` set lines)"
    by (rule max_line_width_mono [OF assms(1)])
  then show ?thesis
    using total_height_strict_mono [OF assms(1,2)]
    by (simp add: max_line_width_Max [OF assms(1)])
qed

lemma test_font_mono: "a \<le> b \<Longrightarrow> test_font line f a \<le> test_font line f b"
  by (simp add: test_font_def mult_left_mono)

theorem width_height_monotone_witness:
  "\<exists>m1 m2. max_line_width test_font [''FOO'', ''QUUX''] ''Courier'' 3 = Inr m1 \<and>
     max_line_width test_font [''FOO'', ''QUUX''] ''Courier'' 5 = Inr m2 \<and> m1 \<le> m2 \<and>
     total_height [''FOO'', ''QUUX''] 3 < total_height [''FOO'', ''QUUX''] 5"
  using width_height_monotone [of "[''FOO'', ''QUUX'']" 3 5 test_font "''Courier''"]
  by (simp add: test_font_mono)

subsection \<open>The result of the search\<close>

text \<open>
  Claim C7. For a non-empty list of lines and any canvas dimensions, font name and metrics
  function, \<^verbatim>\<open>find_max_font_size_for_multiline\<close> returns an integer that is at least 1;
  when size 1 itself overflows, the result is exactly 1.
\<close>
theorem solver_at_least_one:
  assumes "lines \<noteq> []"
  shows "\<exists>r. find_max_font_size_for_multiline sw lines max_width max_height font_name = Some (Inr r) \<and>
           1 \<le> r \<and>
           (\<not> fits sw lines max_width max_height font_name 1 \<longrightarrow> r = 1)"
proof -
  obtain t where t: "1 \<le> t" "\<not> fits sw lines max_width max_height font_name t"
      "\<forall>u. 1 \<le> u \<and> u < t \<longrightarrow> fits sw lines max_width max_height font_name u"
      "find_max_font_size_for_multiline sw lines max_width max_height font_name =
         Some (Inr (max (t - 1) 1))"
    using find_max_result [OF assms] by blast
  have "\<not> fits sw lines max_width max_height font_name 1 \<longrightarrow> max (t - 1) 1 = 1"
  proof
    assume "\<not> fits sw lines max_width max_height font_name 1"
    then have "\<not> 1 < t" using t(3) by auto
    then show "max (t - 1) 1 = 1" by simp
  qed
  then show ?thesis using t(4) by simp
qed

theorem solver_at_least_one_witness:
  "find_max_font_size_for_multiline test_font [''HELLO''] 3 3 ''Courier'' = Some (Inr 1)"
proof -
  have nf: "\<not> fits test_font [''HELLO''] 3 3 ''Courier'' 1"
    by (simp add: fits_iff test_font_def)
  show ?thesis
    using solver_at_least_one [of "[''HELLO'']" test_font 3 3 "''Courier''"] nf by auto
qed

text \<open>
  Claim C8. For a non-empty list of lines the search terminates, whatever the metrics
  function and the canvas: the block height strictly increases with the size, so some
  size from 1 on exceeds \<open>max_height - 4\<close>, and the loop returns a size from every starting
  size, in particular from 1.
\<close>
theorem solver_terminates:
  assumes "lines \<noteq> []"
  shows "(\<forall>s1 s2. s1 < s2 \<longrightarrow> total_height lines s1 < total_height lines s2) \<and>
         (\<exists>t\<ge>1. real_of_int (total_height lines t) > max_height - 4) \<and>
         (\<forall>font_size. \<exists>r. find_max_font_size_loop sw lines max_width max_height font_name font_size
                             = Some (Inr r)) \<and>
         (\<exists>r. find_max_font_size_for_multiline sw lines max_width max_height font_name = Some (Inr r))"
proof -
  have a: "\<forall>s1 s2. s1 < s2 \<longrightarrow> total_height lines s1 < total_height lines s2"
    using total_height_strict_mono [OF assms] by blast
  obtain k where "real_of_int (total_height lines (1 + int k)) > max_height - 4"
    using height_overflows [OF assms, of max_height 1] by blast
  then have b: "\<exists>t\<ge>1. real_of_int (total_height lines t) > max_height - 4"
    by (intro exI [of _ "1 + int k"]) simp
  have c: "\<forall>font_size. \<exists>r. find_max_font_size_loop sw lines max_width max_height font_name font_size
                             = Some (Inr r)"
    using loop_result [OF assms, of sw max_width max_height font_name] by blast
  then have d: "\<exists>r. find_max_font_size_for_multiline sw lines max_width max_height font_name = Some (Inr r)"
    by (simp add: find_max_font_size_for_multiline_def)
  show ?thesis using a b c d by blast
qed

theorem solver_terminates_witness:
  "(\<exists>t\<ge>1. real_of_int (total_height [''FOO'', ''BAR''] t) > 50 - 4) \<and>
   find_max_font_size_for_multiline test_font [''FOO'', ''BAR''] 100 50 ''Courier'' = Some (Inr 22)"
proof -
  have "\<exists>r. find_max_font_size_for_multiline test_font [''FOO'', ''BAR''] 100 50 ''Courier'' = Some (Inr r)"
    using solver_terminates [of "[''FOO'', ''BAR'']" 50 test_font 100 "''Courier''"] by simp
  moreover have "find_max_font_size_for_multiline test_font [''FOO'', ''BAR''] 100 50 ''Courier'' = Some (Inr 22)"
    unfolding find_max_font_size_for_multiline_def
    by (simp add: find_max_font_size_loop.simps max_line_width_def total_height_def test_font_def)
  ultimately show ?thesis
    using solver_terminates [of "[''FOO'', ''BAR'']" 50 test_font 100 "''Courier''"] by simp
qed

text \<open>
  Claim C1. For a non-empty list of lines, any font name and a metrics function whose
  widths are non-decreasing in the size (from size 1 on, for the lines at hand), if size 1
  fits then \<^verbatim>\<open>find_max_font_size_for_multiline\<close> returns a size \<open>r \<ge> 1\<close> that fits and
  that no fitting size exceeds: the largest positive size for which both constraints hold.
  By \<open>fits_iff\<close>, fitting is: every line is at most \<open>max_width - 4\<close> wide and
  \<open>len(lines) * size + (len(lines) - 1) * 2 \<le> max_height - 4\<close>.
\<close>
theorem solver_largest_fitting:
  assumes "lines \<noteq> []"
    and "\<forall>line\<in>set lines. \<forall>a b. 1 \<le> a \<and> a \<le> b \<longrightarrow> sw line font_name a \<le> sw line font_name b"
    and "fits sw lines max_width max_height font_name 1"
  shows "\<exists>r. find_max_font_size_for_multiline sw lines max_width max_height font_name = Some (Inr r) \<and>
           1 \<le> r \<and> fits sw lines max_width max_height font_name r \<and>
           (\<forall>s. fits sw lines max_width max_height font_name s \<longrightarrow> s \<le> r)"
proof -
  obtain t where t: "1 \<le> t" "\<not> fits sw lines max_width max_height font_name t"
      "\<forall>u. 1 \<le> u \<and> u < t \<longrightarrow> fits sw lines max_width max_height font_name u"
      "find_max_font_size_for_multiline sw lines max_width max_height font_name =
         Some (Inr (max (t - 1) 1))"
    using find_max_result [OF assms(1)] by blast
  have t2: "2 \<le> t"
  proof (rule ccontr)
    assume "\<not> 2 \<le> t"
    then have "t = 1" using t(1) by simp
    then show False using t(2) assms(3) by simp
  qed
  then have r: "max (t - 1) 1 = t - 1" by simp
  have f: "fits sw lines max_width max_height font_name (t - 1)"
    using t(3) t2 by simp
  have top: "\<forall>s. fits sw lines max_width max_height font_name s \<longrightarrow> s \<le> t - 1"
  proof (intro allI impI, rule ccontr)
    fix s assume fs: "fits sw lines max_width max_height font_name s" and "\<not> s \<le> t - 1"
    then have ts: "t \<le> s" by simp
    have "\<forall>line\<in>set lines. sw line font_name t \<le> sw line font_name s"
      using assms(2) t(1) ts by simp
    then have "fits sw lines max_width max_height font_name t"
      using fits_antimono [OF assms(1) _ ts fs] by blast
    then show False using t(2) by simp
  qed
  show ?thesis using t(4) r f top t2 by simp
qed

theorem solver_largest_fitting_witness:
  "fits test_font [''HELLO''] 200 100 ''Courier'' 1 \<and>
   find_max_font_size_for_multiline test_font [''HELLO''] 200 100 ''Courier'' = Some (Inr 39)"
proof -
  have f1: "fits test_font [''HELLO''] 200 100 ''Courier'' 1"
    by (simp add: fits_iff test_font_def)
  have mono: "\<forall>line\<in>set [''HELLO'']. \<forall>a b. 1 \<le> a \<and> a \<le> b \<longrightarrow>
      test_font line ''Courier'' a \<le> test_font line ''Courier'' b"
    by (simp add: test_font_mono)
  obtain r where r: "find_max_font_size_for_multiline test_font [''HELLO''] 200 100 ''Courier'' = Some (Inr r)"
      "fits test_font [''HELLO''] 200 100 ''Courier'' r"
      "\<forall>s. fits test_font [''HELLO''] 200 100 ''Courier'' s \<longrightarrow> s \<le> r"
    using solver_largest_fitting [OF _ mono f1] by auto
  have "fits test_font [''HELLO''] 200 100 ''Courier'' 39"
    by (simp add: fits_iff test_font_def)
  then have "39 \<le> r" using r(3) by blast
  moreover have "r \<le> 39" using r(2) by (simp add: fits_iff test_font_def)
  ultimately show ?thesis using r(1) f1 by simp
qed

section \<open>Properties of the composer and the batch driver\<close>

subsection \<open>split and strip\<close>

lemma split_empty_iff: "split s = [] \<longleftrightarrow> (\<forall>c\<in>set s. isspace c)"
  by (subst split.simps) (simp add: Let_def dropWhile_eq_Nil_conv)

lemma split_word:
  "w \<in> set (split s) \<Longrightarrow> w \<noteq> [] \<and> (\<forall>c\<in>set w. \<not> isspace c)"
proof (induction s rule: split.induct)
  case (1 s)
  define r where "r = dropWhile isspace s"
  show ?case
  proof (cases "r = []")
    case True
    then have "split s = []" by (subst split.simps) (simp add: r_def)
    then show ?thesis using "1.prems" by simp
  next
    case False
    have sp: "split s = takeWhile (\<lambda>c. \<not> isspace c) r # split (dropWhile (\<lambda>c. \<not> isspace c) r)"
      using False by (subst split.simps) (simp add: r_def Let_def)
    have h: "\<not> isspace (hd r)" using False hd_dropWhile r_def by metis
    have ne: "takeWhile (\<lambda>c. \<not> isspace c) r \<noteq> []"
      using False h by (cases r) simp_all
    have ns: "\<forall>c\<in>set (takeWhile (\<lambda>c. \<not> isspace c) r). \<not> isspace c"
      by (auto dest: set_takeWhileD)
    from "1.prems" sp consider "w = takeWhile (\<lambda>c. \<not> isspace c) r"
      | "w \<in> set (split (dropWhile (\<lambda>c. \<not> isspace c) r))" by auto
    then show ?thesis
    proof cases
      case 1
      then show ?thesis using ne ns by simp
    next
      case 2
      show ?thesis by (rule "1.IH" [OF r_def False 2])
    qed
  qed
qed

lemma filter_dropWhile_space:
  "filter (\<lambda>c. \<not> isspace c) (dropWhile isspace s) = filter (\<lambda>c. \<not> isspace c) s"
  by (induction s) simp_all

lemma concat_split: "concat (split s) = filter (\<lambda>c. \<not> isspace c) s"
proof (induction s rule: split.induct)
  case (1 s)
  define r where "r = dropWhile isspace s"
  show ?case
  proof (cases "r = []")
    case True
    then have "split s = []" by (subst split.simps) (simp add: r_def)
    moreover have "\<forall>c\<in>set s. isspace c"
      using True by (simp add: r_def dropWhile_eq_Nil_conv)
    ultimately show ?thesis by (simp add: filter_empty_conv)
  next
    case False
    have sp: "split s = takeWhile (\<lambda>c. \<not> isspace c) r # split (dropWhile (\<lambda>c. \<not> isspace c) r)"
      using False by (subst split.simps) (simp add: r_def Let_def)
    have "concat (split s) =
        takeWhile (\<lambda>c. \<not> isspace c) r @ filter (\<lambda>c. \<not> isspace c) (dropWhile (\<lambda>c. \<not> isspace c) r)"
      by (simp only: sp concat.simps "1.IH" [OF r_def False])
    also have "takeWhile (\<lambda>c. \<not> isspace c) r = filter (\<lambda>c. \<not> isspace c) (takeWhile (\<lambda>c. \<not> isspace c) r)"
    proof -
      have "\<forall>c\<in>set (takeWhile (\<lambda>c. \<not> isspace c) r). \<not> isspace c"
        by (auto dest: set_takeWhileD)
      then have "filter (\<lambda>c. \<not> isspace c) (takeWhile (\<lambda>c. \<not> isspace c) r) =
          takeWhile (\<lambda>c. \<not> isspace c) r"
        by (simp only: filter_id_conv)
      then show ?thesis by (rule sym)
    qed
    also have "filter (\<lambda>c. \<not> isspace c) (takeWhile (\<lambda>c. \<not> isspace c) r) @
         filter (\<lambda>c. \<not> isspace c) (dropWhile (\<lambda>c. \<not> isspace c) r) = filter (\<lambda>c. \<not> isspace c) r"
      by (simp flip: filter_append)
    also have "\<dots> = filter (\<lambda>c. \<not> isspace c) s"
      by (simp add: r_def filter_dropWhile_space)
    finally show ?thesis .
  qed
qed



lemma strip_nonspace:
  assumes "strip s \<noteq> []"
  shows "\<exists>c\<in>set (strip s). \<not> isspace c"
proof -
  define u where "u = dropWhile isspace (rev (dropWhile isspace s))"
  have su: "strip s = rev u" by (simp only: strip_def u_def)
  have u: "u \<noteq> []" using assms unfolding su by (simp only: rev_is_Nil_conv not_False_eq_True)
  have "\<not> isspace (hd u)" using u unfolding u_def by (rule hd_dropWhile)
  moreover have "hd u \<in> set (strip s)" unfolding su using hd_in_set [OF u] by (simp only: set_rev)
  ultimately show ?thesis by blast
qed

lemma split_strip_nonempty:
  assumes "strip s \<noteq> []"
  shows "split (strip s) \<noteq> []"
proof -
  obtain c where "c \<in> set (strip s)" "\<not> isspace c"
    using strip_nonspace [OF assms] by blast
  then show ?thesis unfolding split_empty_iff by blast
qed

text \<open>
  Words are maximal: a non-empty run without whitespace is one word, and a word followed
  by a whitespace character is split off whole.
\<close>

lemma split_skip_space: "split (dropWhile isspace s) = split s"
proof -
  have "split (dropWhile isspace s) =
      (let r = dropWhile isspace (dropWhile isspace s) in
       if r = [] then []
       else takeWhile (\<lambda>c. \<not> isspace c) r # split (dropWhile (\<lambda>c. \<not> isspace c) r))"
    by (rule split.simps)
  also have "\<dots> =
      (let r = dropWhile isspace s in
       if r = [] then []
       else takeWhile (\<lambda>c. \<not> isspace c) r # split (dropWhile (\<lambda>c. \<not> isspace c) r))"
    by (simp only: dropWhile_idem)
  also have "\<dots> = split s"
    by (rule split.simps [symmetric])
  finally show ?thesis .
qed

lemma split_single_word:
  assumes "w \<noteq> []" and "\<forall>c\<in>set w. \<not> isspace c"
  shows "split w = [w]"
proof -
  have d: "dropWhile isspace w = w" using assms by (cases w) simp_all
  have t: "takeWhile (\<lambda>c. \<not> isspace c) w = w" using assms(2) by simp
  have r: "dropWhile (\<lambda>c. \<not> isspace c) w = []" using assms(2) by simp
  have e: "split [] = []" by (simp add: split_empty_iff)
  show ?thesis
    by (subst split.simps) (simp add: d t r e assms(1))
qed

lemma split_word_then_space:
  assumes "w \<noteq> []" and "\<forall>c\<in>set w. \<not> isspace c" and "isspace sp"
  shows "split (w @ sp # rest) = w # split rest"
proof -
  have d: "dropWhile isspace (w @ sp # rest) = w @ sp # rest"
    using assms(1,2) by (cases w) simp_all
  have t: "takeWhile (\<lambda>c. \<not> isspace c) (w @ sp # rest) = w"
    using assms(2,3) by simp
  have r: "dropWhile (\<lambda>c. \<not> isspace c) (w @ sp # rest) = sp # rest"
    using assms(2,3) by simp
  have "split (w @ sp # rest) = w # split (sp # rest)"
    by (subst split.simps) (simp add: d t r assms(1))
  also have "split (sp # rest) = split (dropWhile isspace (sp # rest))"
    by (rule split_skip_space [symmetric])
  also have "dropWhile isspace (sp # rest) = dropWhile isspace rest"
    using assms(3) by simp
  also have "split (dropWhile isspace rest) = split rest"
    by (rule split_skip_space)
  finally show ?thesis .
qed

subsection \<open>The drawing loop\<close>

lemma foldl_draw_line:
  "foldl (draw_line sw L f fs w sy) c ils =
     c\<lparr>code := code c @
          map (\<lambda>(i, line). DrawString ((w - sw line f fs) / 2)
                 (sy + real_of_int ((int (length L) - int i - 1) * (fs + 2))) line) ils\<rparr>"
proof (induction ils arbitrary: c)
  case Nil
  then show ?case by simp
next
  case (Cons il ils)
  obtain i line where il: "il = (i, line)" by (cases il)
  have "foldl (draw_line sw L f fs w sy) c (il # ils) =
      foldl (draw_line sw L f fs w sy) (draw_line sw L f fs w sy c il) ils"
    by simp
  also have "\<dots> = (draw_line sw L f fs w sy c il)\<lparr>code := code (draw_line sw L f fs w sy c il) @
          map (\<lambda>(i, line). DrawString ((w - sw line f fs) / 2)
                 (sy + real_of_int ((int (length L) - int i - 1) * (fs + 2))) line) ils\<rparr>"
    by (rule Cons.IH)
  finally have e: "foldl (draw_line sw L f fs w sy) c (il # ils) =
      (draw_line sw L f fs w sy c il)\<lparr>code := code (draw_line sw L f fs w sy c il) @
          map (\<lambda>(i, line). DrawString ((w - sw line f fs) / 2)
                 (sy + real_of_int ((int (length L) - int i - 1) * (fs + 2))) line) ils\<rparr>" .
  have step: "draw_line sw L f fs w sy c (i, line) =
      c\<lparr>code := code c @ [DrawString ((w - sw line f fs) / 2)
                 (sy + real_of_int ((int (length L) - int i - 1) * (fs + 2))) line]\<rparr>"
    by (simp add: draw_line_def drawString_def)
  show ?case unfolding e unfolding il step by simp
qed

lemma map_enumerate_nth:
  "map (\<lambda>(i, x). F i x) (enumerate 0 xs) = map (\<lambda>i. F i (xs ! i)) [0..<length xs]"
  by (rule nth_equalityI) (simp_all add: nth_enumerate_eq)

lemma draw_label_explicit:
  assumes "find_max_font_size_for_multiline sw (split text) w h f = Some (Inr raw)"
  shows "draw_label sw c text f w h ov =
     Some (Inr (c\<lparr>code := code c @ SetFont f (max (raw - 2 + ov) 1)
                    # line_ops sw (split text) f (max (raw - 2 + ov) 1) w h\<rparr>))"
  using assms
  by (simp add: draw_label_def Let_def foldl_draw_line setFont_def FONT_ADJUSTMENT_def
        map_enumerate_nth line_ops_def total_height_def)


lemma draw_label_page:
  assumes "split text \<noteq> []"
  shows "draw_label sw c text f w h ov = Some (Inr (c\<lparr>code := code c @ label_page sw text f w h ov\<rparr>))"
proof -
  obtain raw where raw: "find_max_font_size_for_multiline sw (split text) w h f = Some (Inr raw)"
    using find_max_result [OF assms] by blast
  show ?thesis
    by (simp add: draw_label_explicit [OF raw] label_page_def Canvas_def)
qed

lemma drawn_lines_line_ops: "drawn_lines (line_ops sw L f fs w h) = L"
proof -
  have "map drawn_text (line_ops sw L f fs w h) = map (\<lambda>i. [L ! i]) [0..<length L]"
    by (simp add: line_ops_def)
  then have "drawn_lines (line_ops sw L f fs w h) = map (\<lambda>i. L ! i) [0..<length L]"
    by (simp only: drawn_lines_def concat_map_singleton)
  then show ?thesis by (simp only: map_nth)
qed

lemma drawn_lines_label_page:
  assumes "split text \<noteq> []"
  shows "drawn_lines (label_page sw text f w h ov) = split text"
proof -
  obtain raw where raw: "find_max_font_size_for_multiline sw (split text) w h f = Some (Inr raw)"
    using find_max_result [OF assms] by blast
  have "label_page sw text f w h ov =
      SetFont f (max (raw - 2 + ov) 1) # line_ops sw (split text) f (max (raw - 2 + ov) 1) w h"
    by (simp add: draw_label_explicit [OF raw] label_page_def Canvas_def)
  then have "drawn_lines (label_page sw text f w h ov) =
      drawn_lines (line_ops sw (split text) f (max (raw - 2 + ov) 1) w h)"
    by (simp add: drawn_lines_def)
  then show ?thesis by (simp only: drawn_lines_line_ops)
qed

subsection \<open>The batch loop\<close>

lemma create_pdf_loop_pages:
  assumes "code c = []"
  shows "create_pdf_loop sw c data f w h ov =
     Some (Inr (c\<lparr>pages := pages c @
        map (\<lambda>v. label_page sw (strip v) f w h ov)
          (filter (\<lambda>v. strip v \<noteq> [] \<and> lower (strip v) \<noteq> ''nan'') data)\<rparr>))"
  using assms
proof (induction data arbitrary: c)
  case Nil
  then show ?case by simp
next
  case (Cons v data)
  show ?case
  proof (cases "strip v = [] \<or> lower (strip v) = ''nan''")
    case True
    then have "create_pdf_loop sw c (v # data) f w h ov = create_pdf_loop sw c data f w h ov"
      by (simp add: Let_def)
    also have "\<dots> = Some (Inr (c\<lparr>pages := pages c @
        map (\<lambda>v. label_page sw (strip v) f w h ov)
          (filter (\<lambda>v. strip v \<noteq> [] \<and> lower (strip v) \<noteq> ''nan'') data)\<rparr>))"
      by (rule Cons.IH [OF Cons.prems])
    finally show ?thesis using True by auto
  next
    case False
    then have ne: "split (strip v) \<noteq> []" by (simp add: split_strip_nonempty)
    define c' where "c' = showPage (c\<lparr>code := code c @ label_page sw (strip v) f w h ov\<rparr>)"
    have c': "code c' = []" "pages c' = pages c @ [label_page sw (strip v) f w h ov]"
      using Cons.prems by (simp_all add: c'_def showPage_def)
    have "create_pdf_loop sw c (v # data) f w h ov = create_pdf_loop sw c' data f w h ov"
      using False by (simp add: Let_def draw_label_page [OF ne] c'_def)
    also have "\<dots> = Some (Inr (c'\<lparr>pages := pages c' @
        map (\<lambda>v. label_page sw (strip v) f w h ov)
          (filter (\<lambda>v. strip v \<noteq> [] \<and> lower (strip v) \<noteq> ''nan'') data)\<rparr>))"
      by (rule Cons.IH [OF c'(1)])
    also have "c'\<lparr>pages := pages c' @
        map (\<lambda>v. label_page sw (strip v) f w h ov)
          (filter (\<lambda>v. strip v \<noteq> [] \<and> lower (strip v) \<noteq> ''nan'') data)\<rparr> =
       c\<lparr>pages := pages c @
        map (\<lambda>v. label_page sw (strip v) f w h ov)
          (filter (\<lambda>v. strip v \<noteq> [] \<and> lower (strip v) \<noteq> ''nan'') (v # data))\<rparr>"
      using False Cons.prems by (simp add: c'_def showPage_def)
    finally show ?thesis .
  qed
qed

lemma create_pdf_pages:
  "create_pdf sw data f w h ov =
     Some (Inr \<lparr>pagesize = (w, h), code = [],
        pages = map (\<lambda>v. label_page sw (strip v) f w h ov)
          (filter (\<lambda>v. strip v \<noteq> [] \<and> lower (strip v) \<noteq> ''nan'') data)\<rparr>)"
proof -
  have "code (Canvas (w, h)) = []" by (simp add: Canvas_def)
  then show ?thesis
    by (simp add: create_pdf_def create_pdf_loop_pages save_def Canvas_def)
qed

lemma create_pdf_skip:
  assumes "strip v = [] \<or> lower (strip v) = ''nan''"
  shows "create_pdf sw (pre @ v # post) f w h ov = create_pdf sw (pre @ post) f w h ov"
  using assms by (auto simp add: create_pdf_pages)

lemma split_FOO_BAR: "split ''FOO BAR'' = [''FOO'', ''BAR'']"
  by (simp add: split.simps isspace_def)

lemma upt_2: "[0..<2] = [0, Suc 0]"
  by (simp add: upt_rec)

subsection \<open>The label\<close>

text \<open>
  Claim C2. For every text with at least one word, \<^verbatim>\<open>draw_label\<close> completes: the
  solver returns a raw size, and the one font set on the canvas has the size
  \<open>max (raw_font_size - 2 + font_override) 1\<close>, which is at least 1 for every raw size and
  every override; everything drawn after it is a \<^verbatim>\<open>drawString\<close>. The run below has
  override \<open>-5\<close> on a 10 by 10 canvas: raw size 3, final size 1.
\<close>

theorem composer_final_size:
  assumes "split text \<noteq> []"
  shows "\<exists>raw_font_size ops c'.
           find_max_font_size_for_multiline sw (split text) width height font_name
             = Some (Inr raw_font_size) \<and>
           draw_label sw c text font_name width height font_override = Some (Inr c') \<and>
           code c' = code c @ SetFont font_name (max (raw_font_size - 2 + font_override) 1) # ops \<and>
           (\<forall>p\<in>set ops. \<exists>x y line. p = DrawString x y line) \<and>
           1 \<le> max (raw_font_size - 2 + font_override) 1"
proof -
  obtain raw where raw: "find_max_font_size_for_multiline sw (split text) width height font_name = Some (Inr raw)"
    using find_max_result [OF assms] by blast
  define fs where "fs = max (raw - 2 + font_override) 1"
  define ops where "ops = line_ops sw (split text) font_name fs width height"
  define c' where "c' = c\<lparr>code := code c @ SetFont font_name fs # ops\<rparr>"
  have run: "draw_label sw c text font_name width height font_override = Some (Inr c')"
    unfolding c'_def ops_def fs_def by (rule draw_label_explicit [OF raw])
  have cd: "code c' = code c @ SetFont font_name fs # ops"
    by (simp add: c'_def)
  have dr: "\<forall>p\<in>set ops. \<exists>x y line. p = DrawString x y line"
  proof
    fix p
    assume "p \<in> set ops"
    then obtain i where "p = DrawString
        ((width - sw (split text ! i) font_name fs) / 2)
        ((height - real_of_int (int (length (split text)) * fs
            + (int (length (split text)) - 1) * 2)) / 2
          + real_of_int ((int (length (split text)) - int i - 1) * (fs + 2)))
        (split text ! i)"
      unfolding ops_def line_ops_def by auto
    then show "\<exists>x y line. p = DrawString x y line" by blast
  qed
  have one: "1 \<le> fs" by (simp add: fs_def)
  show ?thesis
    using raw run cd dr one unfolding fs_def by blast
qed

lemma tiny_raw: "find_max_font_size_for_multiline test_font [''AB''] 10 10 ''Courier'' = Some (Inr 3)"
  unfolding find_max_font_size_for_multiline_def
  by (simp add: find_max_font_size_loop.simps max_line_width_def total_height_def test_font_def)

lemma split_AB: "split ''AB'' = [''AB'']"
  by (simp add: split.simps isspace_def)

theorem composer_final_size_witness:
  "split ''AB'' \<noteq> [] \<and>
   draw_label test_font (Canvas (10, 10)) ''AB'' ''Courier'' 10 10 (- 5) =
     Some (Inr \<lparr>pagesize = (10, 10), code = [SetFont ''Courier'' 1, DrawString 4 (9 / 2) ''AB''],
                 pages = []\<rparr>) \<and>
   (\<exists>raw_font_size ops c'.
      find_max_font_size_for_multiline test_font (split ''AB'') 10 10 ''Courier''
        = Some (Inr raw_font_size) \<and>
      draw_label test_font (Canvas (10, 10)) ''AB'' ''Courier'' 10 10 (- 5) = Some (Inr c') \<and>
      code c' = code (Canvas (10, 10)) @ SetFont ''Courier'' (max (raw_font_size - 2 + (- 5)) 1) # ops \<and>
      (\<forall>p\<in>set ops. \<exists>x y line. p = DrawString x y line) \<and>
      1 \<le> max (raw_font_size - 2 + (- 5)) 1)"
proof -
  have ne: "split ''AB'' \<noteq> []" by (simp add: split_AB)
  have run: "draw_label test_font (Canvas (10, 10)) ''AB'' ''Courier'' 10 10 (- 5) =
     Some (Inr \<lparr>pagesize = (10, 10), code = [SetFont ''Courier'' 1, DrawString 4 (9 / 2) ''AB''],
                 pages = []\<rparr>)"
    by (simp add: draw_label_def split_AB tiny_raw FONT_ADJUSTMENT_def setFont_def Canvas_def
          enumerate_eq_zip draw_line_def drawString_def total_height_def test_font_def)
  show ?thesis
    by (intro conjI ne run composer_final_size [OF ne])
qed

text \<open>
  Claim C4. For a text with a non-empty list of \<open>n\<close> lines, \<^verbatim>\<open>draw_label\<close> recomputes the
  block height with the final size as \<open>n * font_size + (n - 1) * 2\<close>, takes
  \<open>start_y = (height - block_height) / 2\<close> unclamped (negative exactly when the block is
  taller than the canvas), and draws line \<open>i\<close> (0-based, first line first) at
  \<open>x = (width - sw line font_name font_size) / 2\<close> and
  \<open>y = start_y + (n - i - 1) * (font_size + 2)\<close>.
\<close>
theorem composer_layout:
  assumes "split text \<noteq> []"
  shows "\<exists>raw_font_size.
     find_max_font_size_for_multiline sw (split text) width height font_name
       = Some (Inr raw_font_size) \<and>
     (let lines = split text;
          n = int (length lines);
          font_size = max (raw_font_size - 2 + font_override) 1;
          block_height = n * font_size + (n - 1) * 2;
          start_y = (height - real_of_int block_height) / 2
      in draw_label sw c text font_name width height font_override =
           Some (Inr (c\<lparr>code := code c @ SetFont font_name font_size #
              map (\<lambda>i. DrawString ((width - sw (lines ! i) font_name font_size) / 2)
                          (start_y + real_of_int ((n - int i - 1) * (font_size + 2)))
                          (lines ! i))
                [0..<length lines]\<rparr>)) \<and>
         (start_y < 0 \<longleftrightarrow> height < real_of_int block_height))"
proof -
  obtain raw where raw: "find_max_font_size_for_multiline sw (split text) width height font_name = Some (Inr raw)"
    using find_max_result [OF assms] by blast
  show ?thesis
    by (rule exI [of _ raw])
       (simp add: raw draw_label_explicit [OF raw] line_ops_def Let_def)
qed

lemma label_raw: "find_max_font_size_for_multiline test_font [''FOO'', ''BAR''] 100 50 ''Courier'' = Some (Inr 22)"
  unfolding find_max_font_size_for_multiline_def
  by (simp add: find_max_font_size_loop.simps max_line_width_def total_height_def test_font_def)

theorem composer_layout_witness:
  "draw_label test_font (Canvas (100, 50)) ''FOO BAR'' ''Courier'' 100 50 5 =
     Some (Inr \<lparr>pagesize = (100, 50),
                 code = [SetFont ''Courier'' 25, DrawString (25 / 2) 26 ''FOO'',
                         DrawString (25 / 2) (- 1) ''BAR''],
                 pages = []\<rparr>)"
  using composer_layout [of "''FOO BAR''" test_font 100 50 "''Courier''" 5 "Canvas (100, 50)"]
  by (simp add: split_FOO_BAR label_raw Let_def upt_2 test_font_def Canvas_def)

text \<open>
  Claim C3. \<^verbatim>\<open>draw_label\<close> splits the whole text at whitespace: the words are non-empty,
  free of whitespace, and together hold exactly the non-whitespace characters of the text
  in order. For every text with at least one word \<^verbatim>\<open>draw_label\<close> completes, leaves
  the finished pages and the pending operations as they were, and the strings it draws
  are these words, one \<^verbatim>\<open>drawString\<close> each, in order. The text \<open>FOO BAR\<close> gives the two
  lines \<open>FOO\<close> and \<open>BAR\<close>, each centred by its own width, with \<open>FOO\<close> at a strictly larger
  \<open>y\<close> than \<open>BAR\<close>, for every metrics function, canvas, font and override.
\<close>

theorem composer_one_word_per_line:
  "(\<forall>word\<in>set (split text). word \<noteq> [] \<and> (\<forall>ch\<in>set word. \<not> isspace ch)) \<and>
   concat (split text) = filter (\<lambda>ch. \<not> isspace ch) text \<and>
   (split text \<noteq> [] \<longrightarrow>
      (\<exists>c'. draw_label sw c text font_name width height font_override = Some (Inr c') \<and>
         pages c' = pages c \<and>
         take (length (code c)) (code c') = code c \<and>
         drawn_lines (drop (length (code c)) (code c')) = split text)) \<and>
   split ''FOO BAR'' = [''FOO'', ''BAR''] \<and>
   (\<exists>font_size y_foo y_bar.
      draw_label sw c ''FOO BAR'' font_name width height font_override =
        Some (Inr (c\<lparr>code := code c @
          [SetFont font_name font_size,
           DrawString ((width - sw ''FOO'' font_name font_size) / 2) y_foo ''FOO'',
           DrawString ((width - sw ''BAR'' font_name font_size) / 2) y_bar ''BAR'']\<rparr>)) \<and>
      y_bar < y_foo)"
proof -
  have a: "\<forall>word\<in>set (split text). word \<noteq> [] \<and> (\<forall>ch\<in>set word. \<not> isspace ch)"
    using split_word by blast
  have b: "concat (split text) = filter (\<lambda>ch. \<not> isspace ch) text"
    by (rule concat_split)
  have c: "split text \<noteq> [] \<longrightarrow>
      (\<exists>c'. draw_label sw c text font_name width height font_override = Some (Inr c') \<and>
         pages c' = pages c \<and>
         take (length (code c)) (code c') = code c \<and>
         drawn_lines (drop (length (code c)) (code c')) = split text)"
  proof
    assume ne: "split text \<noteq> []"
    define c' where "c' = c\<lparr>code := code c @ label_page sw text font_name width height font_override\<rparr>"
    have run: "draw_label sw c text font_name width height font_override = Some (Inr c')"
      unfolding c'_def by (rule draw_label_page [OF ne])
    have p: "pages c' = pages c" by (simp add: c'_def)
    have t: "take (length (code c)) (code c') = code c" by (simp add: c'_def)
    have "drop (length (code c)) (code c') = label_page sw text font_name width height font_override"
      by (simp add: c'_def)
    then have d: "drawn_lines (drop (length (code c)) (code c')) = split text"
      by (simp only: drawn_lines_label_page [OF ne])
    show "\<exists>c'. draw_label sw c text font_name width height font_override = Some (Inr c') \<and>
         pages c' = pages c \<and>
         take (length (code c)) (code c') = code c \<and>
         drawn_lines (drop (length (code c)) (code c')) = split text"
      using run p t d by blast
  qed
  have ne: "split ''FOO BAR'' \<noteq> []" by (simp add: split_FOO_BAR)
  obtain raw where raw: "find_max_font_size_for_multiline sw (split ''FOO BAR'') width height font_name = Some (Inr raw)"
    using find_max_result [OF ne] by blast
  define fs where "fs = max (raw - 2 + font_override) 1"
  have fs: "1 \<le> fs" by (simp add: fs_def)
  define sy where "sy = (height - real_of_int (2 * fs + 2)) / 2"
  have run: "draw_label sw c ''FOO BAR'' font_name width height font_override =
        Some (Inr (c\<lparr>code := code c @
          [SetFont font_name fs,
           DrawString ((width - sw ''FOO'' font_name fs) / 2) (sy + real_of_int (fs + 2)) ''FOO'',
           DrawString ((width - sw ''BAR'' font_name fs) / 2) sy ''BAR'']\<rparr>))"
    using draw_label_explicit [OF raw, of c font_override]
    by (simp add: split_FOO_BAR line_ops_def upt_2 fs_def sy_def)
  have "sy < sy + real_of_int (fs + 2)" using fs by simp
  then have d: "\<exists>font_size y_foo y_bar.
      draw_label sw c ''FOO BAR'' font_name width height font_override =
        Some (Inr (c\<lparr>code := code c @
          [SetFont font_name font_size,
           DrawString ((width - sw ''FOO'' font_name font_size) / 2) y_foo ''FOO'',
           DrawString ((width - sw ''BAR'' font_name font_size) / 2) y_bar ''BAR'']\<rparr>)) \<and>
      y_bar < y_foo"
    using run by blast
  show ?thesis by (intro conjI a b c d split_FOO_BAR)
qed

lemma split_A_B: "split ''A  B'' = [''A'', ''B'']"
  by (simp add: split.simps isspace_def)

lemma raw_A_B: "find_max_font_size_for_multiline test_font [''A'', ''B''] 30 30 ''Courier'' = Some (Inr 12)"
  unfolding find_max_font_size_for_multiline_def
  by (simp add: find_max_font_size_loop.simps max_line_width_def total_height_def test_font_def)

theorem composer_one_word_per_line_witness:
  "split ''A  B'' \<noteq> [] \<and>
   draw_label test_font (Canvas (30, 30)) ''A  B'' ''Courier'' 30 30 0 =
     Some (Inr \<lparr>pagesize = (30, 30),
                 code = [SetFont ''Courier'' 10, DrawString 10 16 ''A'', DrawString 10 4 ''B''],
                 pages = []\<rparr>) \<and>
   (\<exists>c'. draw_label test_font (Canvas (30, 30)) ''A  B'' ''Courier'' 30 30 0 = Some (Inr c') \<and>
      pages c' = pages (Canvas (30, 30)) \<and>
      take (length (code (Canvas (30, 30)))) (code c') = code (Canvas (30, 30)) \<and>
      drawn_lines (drop (length (code (Canvas (30, 30)))) (code c')) = [''A'', ''B''])"
proof -
  have ne: "split ''A  B'' \<noteq> []" by (simp add: split_A_B)
  have run: "draw_label test_font (Canvas (30, 30)) ''A  B'' ''Courier'' 30 30 0 =
     Some (Inr \<lparr>pagesize = (30, 30),
                 code = [SetFont ''Courier'' 10, DrawString 10 16 ''A'', DrawString 10 4 ''B''],
                 pages = []\<rparr>)"
    by (simp add: draw_label_def split_A_B raw_A_B FONT_ADJUSTMENT_def setFont_def Canvas_def
          enumerate_eq_zip draw_line_def drawString_def total_height_def test_font_def upt_2)
  have "\<exists>c'. draw_label test_font (Canvas (30, 30)) ''A  B'' ''Courier'' 30 30 0 = Some (Inr c') \<and>
      pages c' = pages (Canvas (30, 30)) \<and>
      take (length (code (Canvas (30, 30)))) (code c') = code (Canvas (30, 30)) \<and>
      drawn_lines (drop (length (code (Canvas (30, 30)))) (code c')) = split ''A  B''"
    by (rule composer_one_word_per_line
          [of "''A  B''" test_font "Canvas (30, 30)" "''Courier''" 30 30 0,
           THEN conjunct2, THEN conjunct2, THEN conjunct1, THEN mp, OF ne])
  then have ex: "\<exists>c'. draw_label test_font (Canvas (30, 30)) ''A  B'' ''Courier'' 30 30 0 = Some (Inr c') \<and>
      pages c' = pages (Canvas (30, 30)) \<and>
      take (length (code (Canvas (30, 30)))) (code c') = code (Canvas (30, 30)) \<and>
      drawn_lines (drop (length (code (Canvas (30, 30)))) (code c')) = [''A'', ''B'']"
    by (simp only: split_A_B)
  show ?thesis by (intro conjI ne run ex)
qed

subsection \<open>The batch\<close>

lemma raw_one_char:
  "find_max_font_size_for_multiline test_font [''A''] 100 50 ''Courier'' = Some (Inr 46)"
  "find_max_font_size_for_multiline test_font [''D''] 100 50 ''Courier'' = Some (Inr 46)"
  unfolding find_max_font_size_for_multiline_def
  by (simp_all add: find_max_font_size_loop.simps max_line_width_def total_height_def test_font_def)

lemma batch_strips:
  "strip ''A'' = ''A''" "strip ''  '' = []" "strip ''NaN'' = ''NaN''" "strip [] = []"
  "strip ''D'' = ''D''"
  by (simp_all add: strip_def isspace_def)

lemma batch_lowers: "lower ''A'' = ''a''" "lower ''NaN'' = ''nan''" "lower ''D'' = ''d''"
  by code_simp+

lemma batch_splits: "split ''A'' = [''A'']" "split ''D'' = [''D'']"
  by (simp_all add: split.simps isspace_def)

lemma batch_pages:
  "label_page test_font ''A'' ''Courier'' 100 50 0 = [SetFont ''Courier'' 44, DrawString 28 3 ''A'']"
  "label_page test_font ''D'' ''Courier'' 100 50 0 = [SetFont ''Courier'' 44, DrawString 28 3 ''D'']"
  by (simp_all add: label_page_def draw_label_explicit batch_splits raw_one_char line_ops_def
        Canvas_def test_font_def)

text \<open>
  Claim C5 says that a list of 5 values of which 2 are blank gives exactly 3 pages. It
  does not when one of the other three is the \<open>nan\<close> token: of the five values below two
  are blank after stripping and three are not, and the document has two pages, for \<open>A\<close>
  and \<open>D\<close>.
\<close>

theorem five_values_two_blank_counterexample:
  "length [''A'', ''  '', ''NaN'', [], ''D''] = 5 \<and>
   strip ''A'' \<noteq> [] \<and> strip ''  '' = [] \<and> strip ''NaN'' \<noteq> [] \<and> strip [] = [] \<and> strip ''D'' \<noteq> [] \<and>
   create_pdf test_font [''A'', ''  '', ''NaN'', [], ''D''] ''Courier'' 100 50 0 =
     Some (Inr \<lparr>pagesize = (100, 50), code = [],
                 pages = [[SetFont ''Courier'' 44, DrawString 28 3 ''A''],
                          [SetFont ''Courier'' 44, DrawString 28 3 ''D'']]\<rparr>)"
  by (simp add: create_pdf_pages batch_strips batch_lowers batch_pages)

text \<open>
  Claim C5, amended. For every input list \<^verbatim>\<open>create_pdf\<close> returns a document whose pages
  are, in input order, the labels of exactly those entries whose stripped text is neither
  empty nor, in lower case, \<open>nan\<close>: one page per such entry, none for any other. The page
  of a kept entry shows the words of its stripped text. Blank and whitespace-only entries
  give no page: a list of 5 values of which 2 are blank and none of the other three is
  the \<open>nan\<close> token gives exactly 3 pages, those of the non-blank values in their original
  order.
\<close>

theorem one_page_per_kept_value:
  "create_pdf sw data_list font_name width height font_override =
     Some (Inr \<lparr>pagesize = (width, height), code = [],
        pages = map (\<lambda>v. label_page sw (strip v) font_name width height font_override)
                  (filter (\<lambda>v. strip v \<noteq> [] \<and> lower (strip v) \<noteq> ''nan'') data_list)\<rparr>) \<and>
   (\<forall>v\<in>set data_list. strip v \<noteq> [] \<longrightarrow>
      drawn_lines (label_page sw (strip v) font_name width height font_override) = split (strip v) \<and>
      split (strip v) \<noteq> []) \<and>
   (length data_list = 5 \<and> length (filter (\<lambda>v. strip v = []) data_list) = 2 \<and>
    (\<forall>v\<in>set data_list. lower (strip v) \<noteq> ''nan'') \<longrightarrow>
      (\<exists>doc. create_pdf sw data_list font_name width height font_override = Some (Inr doc) \<and>
         length (pages doc) = 3 \<and>
         pages doc = map (\<lambda>v. label_page sw (strip v) font_name width height font_override)
                       (filter (\<lambda>v. strip v \<noteq> []) data_list)))"
proof -
  have a: "create_pdf sw data_list font_name width height font_override =
     Some (Inr \<lparr>pagesize = (width, height), code = [],
        pages = map (\<lambda>v. label_page sw (strip v) font_name width height font_override)
                  (filter (\<lambda>v. strip v \<noteq> [] \<and> lower (strip v) \<noteq> ''nan'') data_list)\<rparr>)"
    by (rule create_pdf_pages)
  have b: "\<forall>v\<in>set data_list. strip v \<noteq> [] \<longrightarrow>
      drawn_lines (label_page sw (strip v) font_name width height font_override) = split (strip v) \<and>
      split (strip v) \<noteq> []"
    using drawn_lines_label_page split_strip_nonempty by blast
  have c: "length data_list = 5 \<and> length (filter (\<lambda>v. strip v = []) data_list) = 2 \<and>
    (\<forall>v\<in>set data_list. lower (strip v) \<noteq> ''nan'') \<longrightarrow>
      (\<exists>doc. create_pdf sw data_list font_name width height font_override = Some (Inr doc) \<and>
         length (pages doc) = 3 \<and>
         pages doc = map (\<lambda>v. label_page sw (strip v) font_name width height font_override)
                       (filter (\<lambda>v. strip v \<noteq> []) data_list))"
  proof
    assume h: "length data_list = 5 \<and> length (filter (\<lambda>v. strip v = []) data_list) = 2 \<and>
      (\<forall>v\<in>set data_list. lower (strip v) \<noteq> ''nan'')"
    have eq: "filter (\<lambda>v. strip v \<noteq> [] \<and> lower (strip v) \<noteq> ''nan'') data_list =
        filter (\<lambda>v. strip v \<noteq> []) data_list"
      using h by (intro filter_cong) auto
    have "length (filter (\<lambda>v. strip v = []) data_list) +
        length (filter (\<lambda>v. \<not> strip v = []) data_list) = length data_list"
      by (rule sum_length_filter_compl)
    then have len: "length (filter (\<lambda>v. strip v \<noteq> []) data_list) = 3"
      using h by simp
    show "\<exists>doc. create_pdf sw data_list font_name width height font_override = Some (Inr doc) \<and>
         length (pages doc) = 3 \<and>
         pages doc = map (\<lambda>v. label_page sw (strip v) font_name width height font_override)
                       (filter (\<lambda>v. strip v \<noteq> []) data_list)"
      unfolding a eq using len by simp
  qed
  show ?thesis using a b c by blast
qed

lemma strip_examples:
  "strip ''A'' = ''A''" "strip ''  '' = []" "strip '' B C '' = ''B C''" "strip [] = []"
  "strip ''D'' = ''D''"
  by (simp_all add: strip_def isspace_def)

lemma lower_examples:
  "lower ''A'' = ''a''" "lower ''B C'' = ''b c''" "lower ''D'' = ''d''" "lower [] = []"
  by code_simp+

lemma split_examples:
  "split ''A'' = [''A'']" "split ''B C'' = [''B'', ''C'']" "split ''D'' = [''D'']"
  by (simp_all add: split.simps isspace_def)

theorem one_page_per_kept_value_witness:
  "\<exists>doc. create_pdf test_font [''A'', ''  '', '' B C '', [], ''D''] ''Courier'' 100 50 0 = Some (Inr doc) \<and>
     length (pages doc) = 3 \<and>
     map drawn_lines (pages doc) = [[''A''], [''B'', ''C''], [''D'']]"
proof -
  note T = one_page_per_kept_value
    [of test_font "[''A'', ''  '', '' B C '', [], ''D'']" "''Courier''" 100 50 0]
  have h: "length [''A'', ''  '', '' B C '', [], ''D''] = 5 \<and>
      length (filter (\<lambda>v. strip v = []) [''A'', ''  '', '' B C '', [], ''D'']) = 2 \<and>
      (\<forall>v\<in>set [''A'', ''  '', '' B C '', [], ''D'']. lower (strip v) \<noteq> ''nan'')"
    by (simp add: strip_examples lower_examples)
  have d: "\<forall>v\<in>set [''A'', ''  '', '' B C '', [], ''D'']. strip v \<noteq> [] \<longrightarrow>
      drawn_lines (label_page test_font (strip v) ''Courier'' 100 50 0) = split (strip v) \<and>
      split (strip v) \<noteq> []"
    by (rule T [THEN conjunct2, THEN conjunct1])
  have "\<exists>doc. create_pdf test_font [''A'', ''  '', '' B C '', [], ''D''] ''Courier'' 100 50 0 = Some (Inr doc) \<and>
      length (pages doc) = 3 \<and>
      pages doc = map (\<lambda>v. label_page test_font (strip v) ''Courier'' 100 50 0)
                       (filter (\<lambda>v. strip v \<noteq> []) [''A'', ''  '', '' B C '', [], ''D''])"
    by (rule T [THEN conjunct2, THEN conjunct2, THEN mp, OF h])
  then obtain doc where doc:
    "create_pdf test_font [''A'', ''  '', '' B C '', [], ''D''] ''Courier'' 100 50 0 = Some (Inr doc)"
    "length (pages doc) = 3"
    "pages doc = map (\<lambda>v. label_page test_font (strip v) ''Courier'' 100 50 0)
                       (filter (\<lambda>v. strip v \<noteq> []) [''A'', ''  '', '' B C '', [], ''D''])"
    by (elim exE conjE)
  have "map drawn_lines (pages doc) = [[''A''], [''B'', ''C''], [''D'']]"
    using d unfolding doc(3) by (simp add: strip_examples split_examples)
  then show ?thesis using doc(1,2) by (intro exI [of _ doc] conjI)
qed

text \<open>
  Claim C10. A value whose stripped text is \<open>nan\<close> in lower case (\<open>NaN\<close>, \<open>NAN\<close>, \<open>nan\<close>)
  is skipped by \<^verbatim>\<open>create_pdf\<close>: the document is the same as without the value, and
  the same as with a blank value in its place. Every page of the document is the label of
  an entry whose stripped text is not empty and not \<open>nan\<close> in lower case, so no page is the
  label of the text \<open>NaN\<close>.
\<close>

theorem nan_values_skipped:
  assumes "lower (strip v) = ''nan''"
  shows "create_pdf sw (before @ v # after) font_name width height font_override =
           create_pdf sw (before @ after) font_name width height font_override \<and>
         create_pdf sw (before @ v # after) font_name width height font_override =
           create_pdf sw (before @ [] # after) font_name width height font_override \<and>
         (\<exists>doc. create_pdf sw (before @ v # after) font_name width height font_override = Some (Inr doc) \<and>
            (\<forall>page\<in>set (pages doc). \<exists>u\<in>set (before @ after).
               page = label_page sw (strip u) font_name width height font_override \<and>
               strip u \<noteq> [] \<and> lower (strip u) \<noteq> ''nan''))"
proof -
  have a: "create_pdf sw (before @ v # after) font_name width height font_override =
           create_pdf sw (before @ after) font_name width height font_override"
    using assms by (simp add: create_pdf_skip)
  have "strip [] = []" by (simp add: strip_def)
  then have b: "create_pdf sw (before @ [] # after) font_name width height font_override =
           create_pdf sw (before @ after) font_name width height font_override"
    by (simp add: create_pdf_skip)
  have c: "\<exists>doc. create_pdf sw (before @ v # after) font_name width height font_override = Some (Inr doc) \<and>
            (\<forall>page\<in>set (pages doc). \<exists>u\<in>set (before @ after).
               page = label_page sw (strip u) font_name width height font_override \<and>
               strip u \<noteq> [] \<and> lower (strip u) \<noteq> ''nan'')"
  proof (intro exI conjI ballI)
    show "create_pdf sw (before @ v # after) font_name width height font_override =
        Some (Inr \<lparr>pagesize = (width, height), code = [],
          pages = map (\<lambda>v. label_page sw (strip v) font_name width height font_override)
                    (filter (\<lambda>v. strip v \<noteq> [] \<and> lower (strip v) \<noteq> ''nan'') (before @ after))\<rparr>)"
      unfolding a by (rule create_pdf_pages)
  next
    fix page
    assume "page \<in> set (pages \<lparr>pagesize = (width, height), code = [],
          pages = map (\<lambda>v. label_page sw (strip v) font_name width height font_override)
                    (filter (\<lambda>v. strip v \<noteq> [] \<and> lower (strip v) \<noteq> ''nan'') (before @ after))\<rparr>)"
    then obtain u where "u \<in> set (before @ after)" "strip u \<noteq> []" "lower (strip u) \<noteq> ''nan''"
        "page = label_page sw (strip u) font_name width height font_override"
      by auto
    then show "\<exists>u\<in>set (before @ after).
               page = label_page sw (strip u) font_name width height font_override \<and>
               strip u \<noteq> [] \<and> lower (strip u) \<noteq> ''nan''"
      by (intro bexI [of _ u] conjI)
  qed
  show ?thesis using a b c by (simp only: simp_thms)
qed

lemma nan_examples:
  "lower (strip ''NaN'') = ''nan''" "lower (strip '' NAN '') = ''nan''" "lower (strip ''nan'') = ''nan''"
  by code_simp+

theorem nan_values_skipped_witness:
  "lower (strip ''NaN'') = ''nan'' \<and>
   create_pdf test_font [''NaN''] ''Courier'' 100 50 0 =
     Some (Inr \<lparr>pagesize = (100, 50), code = [], pages = []\<rparr>) \<and>
   create_pdf test_font [''A'', ''NaN'', ''D''] ''Courier'' 100 50 0 =
     create_pdf test_font [''A'', ''D''] ''Courier'' 100 50 0"
proof -
  have e: "create_pdf test_font [] ''Courier'' 100 50 0 =
     Some (Inr \<lparr>pagesize = (100, 50), code = [], pages = []\<rparr>)"
    by (simp add: create_pdf_def Canvas_def save_def)
  have "create_pdf test_font ([] @ ''NaN'' # []) ''Courier'' 100 50 0 =
      create_pdf test_font ([] @ []) ''Courier'' 100 50 0"
    by (rule nan_values_skipped [OF nan_examples(1), THEN conjunct1])
  then have one: "create_pdf test_font [''NaN''] ''Courier'' 100 50 0 =
      Some (Inr \<lparr>pagesize = (100, 50), code = [], pages = []\<rparr>)"
    using e by (simp only: append.simps)
  have "create_pdf test_font ([''A''] @ ''NaN'' # [''D'']) ''Courier'' 100 50 0 =
      create_pdf test_font ([''A''] @ [''D'']) ''Courier'' 100 50 0"
    by (rule nan_values_skipped [OF nan_examples(1), THEN conjunct1])
  then have three: "create_pdf test_font [''A'', ''NaN'', ''D''] ''Courier'' 100 50 0 =
     create_pdf test_font [''A'', ''D''] ''Courier'' 100 50 0"
    by (simp only: append.simps)
  show ?thesis by (intro conjI nan_examples(1) one three)
qed

subsection \<open>Texts without words\<close>




end
